theory Spec2Isabelle
  imports Main
begin

section \<open>The C++ library underneath \<^verbatim>\<open>CSVParser.h\<close>\<close>

text \<open>
  \<^verbatim>\<open>CSVParser.h\<close> is written against \<^verbatim>\<open>std::istream\<close>, \<^verbatim>\<open>std::stringstream\<close>,
  \<^verbatim>\<open>std::getline\<close> and \<^verbatim>\<open>operator>>\<close>. These belong to the C++ standard library, not to
  the repository; they are modelled here from ISO C++ ([istream.sentry], [string.io],
  [istream.formatted.arithmetic], [facet.num.get.virtuals]).

  An input stream is the sequence of characters not yet read together with the three
  state bits of \<^verbatim>\<open>std::ios_base::iostate\<close>. The exception mask of every stream is the
  default one (\<^verbatim>\<open>goodbit\<close>), so setting a state bit never throws.
\<close>

record istream =
  buf :: string
  eofbit :: bool
  failbit :: bool
  badbit :: bool

definition good :: "istream \<Rightarrow> bool" where
  "good s = (\<not> eofbit s \<and> \<not> failbit s \<and> \<not> badbit s)"

definition eof :: "istream \<Rightarrow> bool" where
  "eof s = eofbit s"

text \<open>\<^verbatim>\<open>std::stringstream(tmp)\<close>: a fresh stream over the characters of \<^verbatim>\<open>tmp\<close>.\<close>

definition stringstream :: "string \<Rightarrow> istream" where
  "stringstream tmp = \<lparr>buf = tmp, eofbit = False, failbit = False, badbit = False\<rparr>"

definition newline :: char where
  "newline = CHR 0x0A"

text \<open>
  \<^verbatim>\<open>std::getline(is, str, delim)\<close>. The sentry (without whitespace skipping) fails on a
  stream that is not \<^verbatim>\<open>good()\<close>: \<^verbatim>\<open>failbit\<close> is set and \<^verbatim>\<open>str\<close> is left as it was.
  Otherwise \<^verbatim>\<open>str\<close> is erased and characters are moved into it until the delimiter is
  met (extracted, not stored) or the input ends (\<^verbatim>\<open>eofbit\<close>); when nothing at all was
  extracted, \<^verbatim>\<open>failbit\<close> is set as well. The result is the new \<^verbatim>\<open>str\<close> and the new
  stream.
\<close>

definition getline :: "istream \<Rightarrow> string \<Rightarrow> char \<Rightarrow> string \<times> istream" where
  "getline is str delim =
     (if \<not> good is then (str, is\<lparr>failbit := True\<rparr>)
      else
        (case dropWhile (\<lambda>c. c \<noteq> delim) (buf is) of
           [] \<Rightarrow> (buf is, is\<lparr>buf := [], eofbit := True, failbit := (buf is = [])\<rparr>)
         | d # rest \<Rightarrow> (takeWhile (\<lambda>c. c \<noteq> delim) (buf is), is\<lparr>buf := rest\<rparr>)))"

text \<open>
  A field type \<^verbatim>\<open>T\<close> of the template (\<^verbatim>\<open>Parseable T\<close>) is given by what the three
  things the header does with it compute:
  \<^item> \<open>default_init\<close>: the value of \<^verbatim>\<open>t\<close> after the declaration \<^verbatim>\<open>T t;\<close>;
  \<^item> \<open>value_init\<close>: the value-initialised \<^verbatim>\<open>T()\<close>, which is what the default
    constructor of \<^verbatim>\<open>std::tuple\<close> stores in each element;
  \<^item> \<open>extraction tmp t\<close>: the value of \<^verbatim>\<open>t\<close> after \<^verbatim>\<open>std::stringstream(tmp) >> t\<close>.
  The extraction operator is taken to be a function of the text and of the old value of
  \<^verbatim>\<open>t\<close> that does not throw.
\<close>

record 'v parseable =
  default_init :: 'v
  value_init :: 'v
  extraction :: "string \<Rightarrow> 'v \<Rightarrow> 'v"

subsection \<open>The field types \<^verbatim>\<open>int\<close> and \<^verbatim>\<open>std::string\<close>\<close>

text \<open>
  Values of the two field types used in the examples. An \<^verbatim>\<open>int\<close> declared by
  \<^verbatim>\<open>int t;\<close> and never written holds an indeterminate value, which is a value of its
  own here.
\<close>

datatype val = IntV int | StrV string | Indeterminate

definition isspace :: "char \<Rightarrow> bool" where
  "isspace c = (c \<in> set [CHR '' '', CHR 0x09, CHR 0x0A, CHR 0x0B, CHR 0x0C, CHR 0x0D])"

definition isdigit :: "char \<Rightarrow> bool" where
  "isdigit c = (c \<in> set ''0123456789'')"

definition digit_val :: "char \<Rightarrow> int" where
  "digit_val c = int (of_char c) - 48"

definition decimal :: "string \<Rightarrow> int" where
  "decimal ds = foldl (\<lambda>n c. 10 * n + digit_val c) 0 ds"

definition INT_MAX :: int where
  "INT_MAX = 2147483647"

definition INT_MIN :: int where
  "INT_MIN = - 2147483648"

definition clamp_int :: "int \<Rightarrow> int" where
  "clamp_int n = (if n < INT_MIN then INT_MIN else if INT_MAX < n then INT_MAX else n)"

text \<open>
  \<^verbatim>\<open>is >> t\<close> for \<^verbatim>\<open>int t\<close> on a fresh stream over \<open>tmp\<close>: leading whitespace is
  skipped; when the text ends there, the sentry fails and \<^verbatim>\<open>t\<close> keeps its value.
  Otherwise an optional sign and the decimal digits after it are read: with no digit the
  conversion fails and zero is stored, a value out of range is stored as the nearest
  limit.
\<close>

definition extract_int :: "string \<Rightarrow> val \<Rightarrow> val" where
  "extract_int tmp t =
     (case dropWhile isspace tmp of
        [] \<Rightarrow> t
      | c # cs \<Rightarrow>
          (let neg = (c = CHR ''-'');
               body = (if c = CHR ''-'' \<or> c = CHR ''+'' then cs else c # cs);
               ds = takeWhile isdigit body
           in if ds = [] then IntV 0
              else IntV (clamp_int (if neg then - decimal ds else decimal ds))))"

text \<open>
  \<^verbatim>\<open>is >> t\<close> for \<^verbatim>\<open>std::string t\<close>: leading whitespace is skipped; when the text ends
  there, \<^verbatim>\<open>t\<close> keeps its value; otherwise \<^verbatim>\<open>t\<close> becomes the characters up to the
  next whitespace.
\<close>

definition extract_string :: "string \<Rightarrow> val \<Rightarrow> val" where
  "extract_string tmp t =
     (case dropWhile isspace tmp of
        [] \<Rightarrow> t
      | c # cs \<Rightarrow> StrV (takeWhile (\<lambda>x. \<not> isspace x) (c # cs)))"

definition int_field :: "val parseable" where
  "int_field = \<lparr>default_init = Indeterminate, value_init = IntV 0, extraction = extract_int\<rparr>"

definition string_field :: "val parseable" where
  "string_field = \<lparr>default_init = StrV [], value_init = StrV [], extraction = extract_string\<rparr>"

section \<open>\<^verbatim>\<open>CSVReader<Fields...>\<close>\<close>

text \<open>
  An instantiation of the template fixes the pack \<^verbatim>\<open>Fields...\<close>. A row
  (\<^verbatim>\<open>value_type = std::tuple<Fields...>\<close>) is the list of its element values in
  declaration order.

  \<^verbatim>\<open>next_row\<close> builds its result with
  \<^verbatim>\<open>std::tuple<Fields...>(parse<Fields>(ss)...)\<close>. The arguments of this parenthesised
  constructor call are indeterminately sequenced ([expr.call]): the language lets the
  implementation run the \<open>N\<close> calls of \<^verbatim>\<open>parse\<close>, which all read from the same
  \<^verbatim>\<open>ss\<close>, in any order, one after the other. That order is a second parameter of the
  instantiation: \<open>arg_order\<close> lists the argument positions in the order in which they
  are evaluated, \<open>[0..<N]\<close> for left to right and \<open>rev [0..<N]\<close> for right to left.
\<close>

record 'v template_args =
  Fields :: "'v parseable list"
  arg_order :: "nat list"

definition left_to_right :: "'v parseable list \<Rightarrow> 'v template_args" where
  "left_to_right Fs = \<lparr>Fields = Fs, arg_order = [0..<length Fs]\<rparr>"

definition right_to_left :: "'v parseable list \<Rightarrow> 'v template_args" where
  "right_to_left Fs = \<lparr>Fields = Fs, arg_order = rev [0..<length Fs]\<rparr>"

text \<open>Every argument is evaluated exactly once: the order is a permutation of the positions.\<close>

definition well_ordered :: "'v template_args \<Rightarrow> bool" where
  "well_ordered T = (sort (arg_order T) = [0..<length (Fields T)])"

text \<open>
  Objects live at addresses. A reader holds a reference to its stream and its separator;
  a cursor holds its cached row and a pointer to a reader, \<open>None\<close> for \<^verbatim>\<open>nullptr\<close>.
  (The members are \<^verbatim>\<open>stream_\<close>, \<^verbatim>\<open>separator_\<close> and \<^verbatim>\<open>current_\<close> in the header.)
  Every reader and stream outlives the cursors and readers that refer to it, so the
  stores are total.
\<close>

type_synonym addr = nat

record CSVReader =
  stream :: addr
  separator :: char

record 'v iterator =
  current :: "'v list"
  reader :: "addr option"

record world =
  streams :: "addr \<Rightarrow> istream"
  readers :: "addr \<Rightarrow> CSVReader"

datatype exn = out_of_range string

text \<open>\<^verbatim>\<open>CSVReader(std::istream &is, const char sep = ',')\<close>, built at address \<open>r\<close>.\<close>

definition CSVReader_ctor :: "addr \<Rightarrow> addr \<Rightarrow> char \<Rightarrow> world \<Rightarrow> world" where
  "CSVReader_ctor r is sep w = w\<lparr>readers := (readers w)(r := \<lparr>stream = is, separator = sep\<rparr>)\<rparr>"

text \<open>
  \<^verbatim>\<open>parse<T>(ss)\<close>: declares \<^verbatim>\<open>T t\<close> and an empty \<^verbatim>\<open>tmp\<close>, reads \<^verbatim>\<open>tmp\<close> from
  \<^verbatim>\<open>ss\<close> up to the separator, extracts \<^verbatim>\<open>t\<close> from a fresh stream over \<^verbatim>\<open>tmp\<close>.
\<close>

definition parse :: "'v parseable \<Rightarrow> char \<Rightarrow> istream \<Rightarrow> 'v \<times> istream" where
  "parse T sep ss =
     (let t = default_init T;
          (tmp, ss') = getline ss [] sep
      in (extraction T tmp t, ss'))"

text \<open>The calls of \<^verbatim>\<open>parse\<close> for a list of field types, run one after the other.\<close>

fun parse_each :: "'v parseable list \<Rightarrow> char \<Rightarrow> istream \<Rightarrow> 'v list \<times> istream" where
  "parse_each [] sep ss = ([], ss)"
| "parse_each (T # Ts) sep ss =
     (let (v, ss') = parse T sep ss;
          (vs, ss'') = parse_each Ts sep ss'
      in (v # vs, ss''))"

fun index_of :: "nat \<Rightarrow> nat list \<Rightarrow> nat" where
  "index_of i [] = 0"
| "index_of i (j # js) = (if i = j then 0 else Suc (index_of i js))"

text \<open>
  \<^verbatim>\<open>std::tuple<Fields...>(parse<Fields>(ss)...)\<close>: the calls run in the order
  \<open>arg_order\<close>, and element \<open>i\<close> of the tuple is the value of argument \<open>i\<close>.
\<close>

definition make_tuple :: "'v template_args \<Rightarrow> char \<Rightarrow> istream \<Rightarrow> 'v list" where
  "make_tuple T sep ss =
     (let vs = fst (parse_each (map (\<lambda>i. Fields T ! i) (arg_order T)) sep ss)
      in map (\<lambda>i. vs ! index_of i (arg_order T)) [0..<length (Fields T)])"

text \<open>
  The member functions of the reader at address \<open>this\<close> take the world and return their
  result with the world after the call. \<^verbatim>\<open>has_next_row\<close> is \<^verbatim>\<open>!stream_.eof()\<close>, which
  reads \<^verbatim>\<open>eofbit\<close> and writes nothing. \<^verbatim>\<open>next_row\<close> throws when \<^verbatim>\<open>has_next_row\<close> is
  false; otherwise it reads \<^verbatim>\<open>tmp\<close> from the stream up to the next newline and builds
  the tuple from a fresh stream over \<^verbatim>\<open>tmp\<close>.
\<close>

definition has_next_row :: "addr \<Rightarrow> world \<Rightarrow> bool \<times> world" where
  "has_next_row this w = (\<not> eof (streams w (stream (readers w this))), w)"

definition next_row :: "'v template_args \<Rightarrow> addr \<Rightarrow> world \<Rightarrow> (exn + 'v list) \<times> world" where
  "next_row T this w =
     (let (more, w0) = has_next_row this w
      in if \<not> more then (Inl (out_of_range ''EOF''), w0)
         else
           (let rd = readers w0 this;
                (tmp, is') = getline (streams w0 (stream rd)) [] newline;
                w1 = w0\<lparr>streams := (streams w0)(stream rd := is')\<rparr>;
                ss = stringstream tmp
            in (Inr (make_tuple T (separator rd) ss), w1)))"

section \<open>\<^verbatim>\<open>CSVReader<Fields...>::iterator\<close>\<close>

text \<open>
  \<^verbatim>\<open>iterator()\<close>: \<^verbatim>\<open>reader\<close> is null, and \<^verbatim>\<open>current_\<close>, which has no initialiser, is
  default-constructed: the default constructor of \<^verbatim>\<open>std::tuple\<close> value-initialises each
  element.
\<close>

definition iterator_default :: "'v template_args \<Rightarrow> 'v iterator" where
  "iterator_default T = \<lparr>current = map value_init (Fields T), reader = None\<rparr>"

text \<open>
  \<^verbatim>\<open>operator++()\<close> changes the cursor and, through the reader, the stream. The result is
  what the call returns (the exception thrown, or the copy of \<^verbatim>\<open>*this\<close>), the cursor
  after the call and the world after the call.
\<close>

definition operator_inc ::
  "'v template_args \<Rightarrow> 'v iterator \<Rightarrow> world \<Rightarrow> (exn + 'v iterator) \<times> 'v iterator \<times> world" where
  "operator_inc T this w =
     (case reader this of
        None \<Rightarrow> (Inl (out_of_range ''EOF''), this, w)
      | Some rd \<Rightarrow>
          (let (more, w0) = has_next_row rd w
           in if \<not> more then
                (let this' = this\<lparr>reader := None\<rparr> in (Inr this', this', w0))
              else
                (case next_row T rd w0 of
                   (Inl e, w1) \<Rightarrow> (Inl e, this, w1)
                 | (Inr row, w1) \<Rightarrow>
                     (let this' = this\<lparr>current := row\<rparr> in (Inr this', this', w1)))))"

text \<open>\<^verbatim>\<open>explicit iterator(CSVReader<Fields...> &reader)\<close>: binds the reader and advances once.\<close>

definition iterator_of :: "'v template_args \<Rightarrow> addr \<Rightarrow> world \<Rightarrow> (exn + 'v iterator) \<times> world" where
  "iterator_of T rd w =
     (let this = \<lparr>current = map value_init (Fields T), reader = Some rd\<rparr>
      in case operator_inc T this w of
           (Inl e, this', w') \<Rightarrow> (Inl e, w')
         | (Inr _, this', w') \<Rightarrow> (Inr this', w'))"

definition operator_ne :: "'v iterator \<Rightarrow> 'v iterator \<Rightarrow> bool" where
  "operator_ne this other = (reader this \<noteq> reader other)"

definition operator_deref :: "'v iterator \<Rightarrow> 'v list" where
  "operator_deref this = current this"

text \<open>
  \<^verbatim>\<open>begin()\<close> and \<^verbatim>\<open>end()\<close> of the reader at address \<open>this\<close> (both names are
  keywords of the theory language, hence the suffix).
\<close>

definition begin_iterator :: "'v template_args \<Rightarrow> addr \<Rightarrow> world \<Rightarrow> (exn + 'v iterator) \<times> world" where
  "begin_iterator T this w = iterator_of T this w"

definition end_iterator :: "'v template_args \<Rightarrow> addr \<Rightarrow> world \<Rightarrow> 'v iterator \<times> world" where
  "end_iterator T this w = (iterator_default T, w)"

section \<open>Iterating a reader\<close>

text \<open>
  The loop a caller writes over a reader \<^verbatim>\<open>r\<close>, and the one a range-based \<^verbatim>\<open>for\<close>
  expands to:
  \<^verbatim>\<open>for (auto it = r.begin(); it != r.end(); ++it) rows.push_back(*it);\<close>
  It runs for as long as the stream keeps \<^verbatim>\<open>eofbit\<close> clear, which may be for ever,
  so the model counts the tests of the loop condition: \<open>None\<close> means that \<open>n\<close> tests
  were not enough to leave the loop.
\<close>

fun iterate ::
  "nat \<Rightarrow> 'v template_args \<Rightarrow> addr \<Rightarrow> 'v iterator \<Rightarrow> world \<Rightarrow> ((exn + 'v list list) \<times> world) option" where
  "iterate 0 T r it w = None"
| "iterate (Suc n) T r it w =
     (let (e, w0) = end_iterator T r w
      in if \<not> operator_ne it e then Some (Inr [], w0)
         else
           (let row = operator_deref it
            in case operator_inc T it w0 of
                 (Inl x, it', w1) \<Rightarrow> Some (Inl x, w1)
               | (Inr _, it', w1) \<Rightarrow>
                   (case iterate n T r it' w1 of
                      None \<Rightarrow> None
                    | Some (Inl x, w2) \<Rightarrow> Some (Inl x, w2)
                    | Some (Inr rows, w2) \<Rightarrow> Some (Inr (row # rows), w2))))"

definition for_each ::
  "nat \<Rightarrow> 'v template_args \<Rightarrow> addr \<Rightarrow> world \<Rightarrow> ((exn + 'v list list) \<times> world) option" where
  "for_each n T r w =
     (case begin_iterator T r w of
        (Inl x, w0) \<Rightarrow> Some (Inl x, w0)
      | (Inr it, w0) \<Rightarrow> iterate n T r it w0)"

section \<open>Examples\<close>

text \<open>
  The world of the examples: one stream over the given text at address 0, read by one
  reader at address 0 with the default separator.
\<close>

definition one_reader :: "string \<Rightarrow> world" where
  "one_reader text =
     CSVReader_ctor 0 0 (CHR '','')
       \<lparr>streams = (\<lambda>a. stringstream text),
        readers = (\<lambda>a. \<lparr>stream = 0, separator = CHR '',''\<rparr>)\<rparr>"

definition int_string :: "val template_args" where
  "int_string = left_to_right [int_field, string_field]"

text \<open>
  The world left behind by \<^verbatim>\<open>begin()\<close> on the one unterminated line \<^verbatim>\<open>1,hello\<close>:
  reading that line met the end of the input, so \<^verbatim>\<open>eofbit\<close> is set.
\<close>

definition drained :: world where
  "drained = snd (begin_iterator int_string 0 (one_reader ''1,hello''))"

section \<open>Separator-delimited segments\<close>

text \<open>
  The segments of a text as the specification counts them: the pieces between
  consecutive occurrences of the separator, one more than there are separators.
  \<open>segment sep line k\<close> is the \<open>k\<close>-th of them, and the empty text when the line has
  fewer.
\<close>

fun split :: "char \<Rightarrow> string \<Rightarrow> string list" where
  "split sep [] = [[]]"
| "split sep (c # cs) =
     (if c = sep then [] # split sep cs
      else (case split sep cs of [] \<Rightarrow> [[c]] | x # xs \<Rightarrow> (c # x) # xs))"

definition segment :: "char \<Rightarrow> string \<Rightarrow> nat \<Rightarrow> string" where
  "segment sep line k = (if k < length (split sep line) then split sep line ! k else [])"

section \<open>Reading one line\<close>

lemma split_not_Nil: "split sep s \<noteq> []"
  by (induction s) (auto split: list.splits)

lemma split_no_sep: "sep \<notin> set s \<Longrightarrow> split sep s = [s]"
  by (induction s) auto

lemma split_at_sep: "sep \<notin> set pre \<Longrightarrow> split sep (pre @ sep # rest) = pre # split sep rest"
  by (induction pre) auto

lemma length_split: "length (split sep s) = Suc (count_list s sep)"
  by (induction s) (auto split: list.splits simp: split_not_Nil)

lemma getline_not_good:
  "\<not> good s \<Longrightarrow> getline s str d = (str, s\<lparr>failbit := True\<rparr>)"
  by (simp add: getline_def)

lemma dropWhile_upto: "d \<notin> set pre \<Longrightarrow> dropWhile (\<lambda>c. c \<noteq> d) (pre @ d # rest) = d # rest"
  by (induction pre) auto

lemma takeWhile_upto: "d \<notin> set pre \<Longrightarrow> takeWhile (\<lambda>c. c \<noteq> d) (pre @ d # rest) = pre"
  by (induction pre) auto

lemma dropWhile_absent: "d \<notin> set s \<Longrightarrow> dropWhile (\<lambda>c. c \<noteq> d) s = []"
  by (induction s) auto

lemma getline_at_delim:
  "good s \<Longrightarrow> buf s = pre @ d # rest \<Longrightarrow> d \<notin> set pre \<Longrightarrow>
   getline s str d = (pre, s\<lparr>buf := rest\<rparr>)"
  by (simp add: getline_def dropWhile_upto takeWhile_upto)

lemma getline_at_eof:
  "good s \<Longrightarrow> d \<notin> set (buf s) \<Longrightarrow>
   getline s str d = (buf s, s\<lparr>buf := [], eofbit := True, failbit := (buf s = [])\<rparr>)"
  by (simp add: getline_def dropWhile_absent)

lemma parse_each_not_good:
  "\<not> good ss \<Longrightarrow> fst (parse_each Ts sep ss) = map (\<lambda>T. extraction T [] (default_init T)) Ts"
proof (induction Ts arbitrary: ss)
  case Nil
  then show ?case by simp
next
  case (Cons T Ts)
  have "\<not> good (ss\<lparr>failbit := True\<rparr>)" by (simp add: good_def)
  from Cons.IH [OF this] Cons.prems show ?case
    by (simp add: parse_def getline_not_good split_def)
qed

lemma segment_0_no_sep: "sep \<notin> set s \<Longrightarrow> segment sep s k = (if k = 0 then s else [])"
  by (simp add: segment_def split_no_sep)

lemma segment_at_sep:
  "sep \<notin> set pre \<Longrightarrow> segment sep (pre @ sep # rest) k = (case k of 0 \<Rightarrow> pre | Suc j \<Rightarrow> segment sep rest j)"
  by (simp add: segment_def split_at_sep split: nat.splits)

lemma parse_each_good:
  "good ss \<Longrightarrow> k < length Ts \<Longrightarrow>
   fst (parse_each Ts sep ss) ! k = extraction (Ts ! k) (segment sep (buf ss) k) (default_init (Ts ! k))"
proof (induction Ts arbitrary: ss k)
  case Nil
  then show ?case by simp
next
  case (Cons T Ts)
  show ?case
  proof (cases "sep \<in> set (buf ss)")
    case True
    then obtain pre rest where b: "buf ss = pre @ sep # rest" and p: "sep \<notin> set pre"
      by (meson split_list_first)
    have g: "good (ss\<lparr>buf := rest\<rparr>)" using Cons.prems(1) by (simp add: good_def)
    show ?thesis
    proof (cases k)
      case 0
      then show ?thesis
        using getline_at_delim [OF Cons.prems(1) b p] p
        by (simp add: parse_def split_def Let_def b segment_at_sep)
    next
      case (Suc j)
      with Cons.prems have j: "j < length Ts" by simp
      from Cons.IH [OF g j] show ?thesis
        using getline_at_delim [OF Cons.prems(1) b p] p Suc
        by (simp add: parse_def split_def Let_def b segment_at_sep)
    qed
  next
    case False
    have ng: "\<not> good (ss\<lparr>buf := [], eofbit := True, failbit := (buf ss = [])\<rparr>)"
      by (simp add: good_def)
    show ?thesis
    proof (cases k)
      case 0
      then show ?thesis
        using getline_at_eof [OF Cons.prems(1) False] False
        by (simp add: parse_def split_def Let_def segment_0_no_sep)
    next
      case (Suc j)
      with Cons.prems have j: "j < length Ts" by simp
      show ?thesis
        using getline_at_eof [OF Cons.prems(1) False] False Suc j parse_each_not_good [OF ng, of Ts sep]
        by (simp add: parse_def split_def Let_def segment_0_no_sep)
    qed
  qed
qed

lemma index_of_mem: "i \<in> set js \<Longrightarrow> index_of i js < length js \<and> js ! index_of i js = i"
  by (induction js) auto

lemma index_of_nth: "distinct js \<Longrightarrow> k < length js \<Longrightarrow> index_of (js ! k) js = k"
  by (induction js arbitrary: k) (auto simp: nth_Cons split: nat.splits)

lemma well_ordered_set: "well_ordered T \<Longrightarrow> set (arg_order T) = {0..<length (Fields T)}"
  unfolding well_ordered_def by (metis set_sort set_upt)

lemma well_ordered_length: "well_ordered T \<Longrightarrow> length (arg_order T) = length (Fields T)"
  unfolding well_ordered_def by (metis length_sort length_upt diff_zero)

lemma length_make_tuple: "length (make_tuple T sep ss) = length (Fields T)"
  by (simp add: make_tuple_def)

lemma make_tuple_nth:
  assumes wo: "well_ordered T" and g: "good ss" and i: "i < length (Fields T)"
  shows "make_tuple T sep ss ! i =
         extraction (Fields T ! i) (segment sep (buf ss) (index_of i (arg_order T))) (default_init (Fields T ! i))"
proof -
  from i well_ordered_set [OF wo] have "i \<in> set (arg_order T)" by simp
  from index_of_mem [OF this]
  have k: "index_of i (arg_order T) < length (arg_order T)"
    and ki: "arg_order T ! index_of i (arg_order T) = i" by simp_all
  from k have "index_of i (arg_order T) < length (map (\<lambda>i. Fields T ! i) (arg_order T))" by simp
  from parse_each_good [OF g this, of sep] k ki i show ?thesis
    by (simp add: make_tuple_def)
qed


lemma getline_line: "good s \<Longrightarrow> fst (getline s str d) = takeWhile (\<lambda>c. c \<noteq> d) (buf s)"
proof (cases "d \<in> set (buf s)")
  case True
  assume g: "good s"
  from True obtain pre rest where b: "buf s = pre @ d # rest" and p: "d \<notin> set pre"
    by (meson split_list_first)
  from getline_at_delim [OF g b p] p show ?thesis by (simp add: b takeWhile_upto)
next
  case False
  assume g: "good s"
  from False have tw: "takeWhile (\<lambda>c. c \<noteq> d) (buf s) = buf s" by (auto simp: takeWhile_eq_all_conv)
  show ?thesis by (simp add: getline_at_eof [OF g False] tw)
qed

lemma getline_rest: "good s \<Longrightarrow> buf (snd (getline s str d)) = tl (dropWhile (\<lambda>c. c \<noteq> d) (buf s))"
proof (cases "d \<in> set (buf s)")
  case True
  assume g: "good s"
  from True obtain pre rest where b: "buf s = pre @ d # rest" and p: "d \<notin> set pre"
    by (meson split_list_first)
  from getline_at_delim [OF g b p] p show ?thesis by (simp add: b dropWhile_upto)
next
  case False
  assume g: "good s"
  with getline_at_eof [OF g False] False show ?thesis by (simp add: dropWhile_absent)
qed

lemma getline_text:
  "fst (getline s [] d) = (if good s then takeWhile (\<lambda>c. c \<noteq> d) (buf s) else [])"
  by (simp add: getline_line getline_not_good)

lemma next_row_returns:
  "fst (has_next_row r w) \<Longrightarrow>
   next_row T r w =
     (Inr (make_tuple T (separator (readers w r))
            (stringstream (fst (getline (streams w (stream (readers w r))) [] newline)))),
      w\<lparr>streams := (streams w)
          (stream (readers w r) := snd (getline (streams w (stream (readers w r))) [] newline))\<rparr>)"
  by (simp add: next_row_def has_next_row_def Let_def split_def)

lemma make_tuple_row:
  assumes wo: "well_ordered T" and g: "good ss"
  shows "make_tuple T sep ss =
         map (\<lambda>i. extraction (Fields T ! i) (segment sep (buf ss) (index_of i (arg_order T)))
                     (default_init (Fields T ! i)))
           [0..<length (Fields T)]"
  by (rule nth_equalityI) (simp_all add: length_make_tuple make_tuple_nth [OF wo g])

section \<open>Running the loop\<close>

lemma operator_inc_more:
  assumes "reader it = Some r" and "fst (has_next_row r w)"
  shows "snd (operator_inc T it w) =
     (it\<lparr>current := make_tuple T (separator (readers w r))
            (stringstream (fst (getline (streams w (stream (readers w r))) [] newline)))\<rparr>,
      w\<lparr>streams := (streams w)
          (stream (readers w r) := snd (getline (streams w (stream (readers w r))) [] newline))\<rparr>)"
  using assms next_row_returns [OF assms(2), of T]
  by (simp add: operator_inc_def has_next_row_def split_def Let_def)

lemma operator_inc_no_more:
  "reader it = Some r \<Longrightarrow> \<not> fst (has_next_row r w) \<Longrightarrow>
   operator_inc T it w = (Inr (it\<lparr>reader := None\<rparr>), it\<lparr>reader := None\<rparr>, w)"
  by (simp add: operator_inc_def has_next_row_def Let_def)

lemma iterate_exhausted:
  "reader it = None \<Longrightarrow> iterate (Suc n) T r it w = Some (Inr [], w)"
  by (simp add: end_iterator_def iterator_default_def operator_ne_def)

lemma iterate_active:
  assumes "reader it = Some r'"
    and "fst (operator_inc T it w) = Inr c"
    and "iterate n T r (fst (snd (operator_inc T it w))) (snd (snd (operator_inc T it w))) =
         Some (Inr rows, wfin)"
  shows "iterate (Suc n) T r it w = Some (Inr (current it # rows), wfin)"
proof -
  obtain res it' w' where e: "operator_inc T it w = (res, it', w')"
    by (cases "operator_inc T it w") auto
  with assms show ?thesis
    by (simp add: end_iterator_def iterator_default_def operator_ne_def operator_deref_def)
qed

lemma operator_inc_Inr:
  "reader it = Some r \<Longrightarrow> \<exists>c. fst (operator_inc T it w) = Inr c"
  by (auto simp: operator_inc_def has_next_row_def next_row_def Let_def split_def)

lemma iterate_rows:
  assumes "reader it = Some r"
    and "good (streams w (stream (readers w r)))"
    and "length (split newline (buf (streams w (stream (readers w r))))) < n"
  shows "map_option fst (iterate n T r (fst (snd (operator_inc T it w))) (snd (snd (operator_inc T it w)))) =
         Some (Inr (map (\<lambda>l. make_tuple T (separator (readers w r)) (stringstream l))
                     (split newline (buf (streams w (stream (readers w r)))))))"
  using assms
proof (induction n arbitrary: it w)
  case 0
  then show ?case by simp
next
  case (Suc m)
  let ?s = "streams w (stream (readers w r))"
  let ?sep = "separator (readers w r)"
  let ?line = "fst (getline ?s [] newline)"
  let ?it' = "it\<lparr>current := make_tuple T ?sep (stringstream ?line)\<rparr>"
  let ?w' = "w\<lparr>streams := (streams w)(stream (readers w r) := snd (getline ?s [] newline))\<rparr>"
  from Suc.prems(2) have h: "fst (has_next_row r w)"
    by (simp add: has_next_row_def eof_def good_def)
  have inc: "snd (operator_inc T it w) = (?it', ?w')"
    by (rule operator_inc_more [OF Suc.prems(1) h])
  have r': "reader ?it' = Some r" using Suc.prems(1) by simp
  have rd: "readers ?w' = readers w" by simp
  have st: "streams ?w' (stream (readers ?w' r)) = snd (getline ?s [] newline)" by simp
  obtain c where c: "fst (operator_inc T ?it' ?w') = Inr c"
    using operator_inc_Inr [OF r'] by blast
  show ?case
  proof (cases "newline \<in> set (buf ?s)")
    case True
    then obtain pre rest where b: "buf ?s = pre @ newline # rest" and p: "newline \<notin> set pre"
      by (meson split_list_first)
    have gl: "getline ?s [] newline = (pre, ?s\<lparr>buf := rest\<rparr>)"
      by (rule getline_at_delim [OF Suc.prems(2) b p])
    have sp: "split newline (buf ?s) = pre # split newline rest"
      by (simp add: b split_at_sep [OF p])
    have g': "good (streams ?w' (stream (readers ?w' r)))"
      using Suc.prems(2) by (simp add: gl good_def)
    have b': "buf (streams ?w' (stream (readers ?w' r))) = rest"
      by (simp add: gl)
    have len: "length (split newline (buf (streams ?w' (stream (readers ?w' r))))) < m"
      using Suc.prems(3) by (simp add: sp gl)
    from Suc.IH [OF r' g' len]
    have ih: "map_option fst (iterate m T r (fst (snd (operator_inc T ?it' ?w'))) (snd (snd (operator_inc T ?it' ?w')))) =
         Some (Inr (map (\<lambda>l. make_tuple T ?sep (stringstream l)) (split newline rest)))"
      by (simp add: gl)
    then obtain rows wfin where
      it: "iterate m T r (fst (snd (operator_inc T ?it' ?w'))) (snd (snd (operator_inc T ?it' ?w'))) = Some (Inr rows, wfin)"
      and rows: "rows = map (\<lambda>l. make_tuple T ?sep (stringstream l)) (split newline rest)"
      by (cases "iterate m T r (fst (snd (operator_inc T ?it' ?w'))) (snd (snd (operator_inc T ?it' ?w')))") auto
    have "iterate (Suc m) T r ?it' ?w' = Some (Inr (current ?it' # rows), wfin)"
      by (rule iterate_active [OF r' c it])
    then show ?thesis
      by (simp add: inc rows sp gl)
  next
    case False
    have gl: "getline ?s [] newline = (buf ?s, ?s\<lparr>buf := [], eofbit := True, failbit := (buf ?s = [])\<rparr>)"
      by (rule getline_at_eof [OF Suc.prems(2) False])
    have sp: "split newline (buf ?s) = [buf ?s]"
      by (rule split_no_sep [OF False])
    have nh: "\<not> fst (has_next_row r ?w')"
      by (simp add: has_next_row_def eof_def gl)
    from Suc.prems(3) obtain k where m: "m = Suc k" by (cases m) (simp_all add: sp)
    have no: "operator_inc T ?it' ?w' = (Inr (?it'\<lparr>reader := None\<rparr>), ?it'\<lparr>reader := None\<rparr>, ?w')"
      by (rule operator_inc_no_more [OF r' nh])
    have ex: "iterate m T r (?it'\<lparr>reader := None\<rparr>) ?w' = Some (Inr [], ?w')"
      unfolding m by (rule iterate_exhausted) simp
    have "iterate (Suc m) T r ?it' ?w' = Some (Inr (current ?it' # []), ?w')"
      by (rule iterate_active [OF r' c]) (simp only: no snd_conv fst_conv ex)
    then show ?thesis
      by (simp add: inc sp gl)
  qed
qed

lemma begin_iterator_active:
  assumes "good (streams w (stream (readers w r)))"
  shows "\<exists>it. fst (begin_iterator T r w) = Inr it \<and> reader it = Some r"
proof -
  let ?it = "\<lparr>current = map value_init (Fields T), reader = Some r\<rparr>"
  have r: "reader ?it = Some r" by simp
  from assms have h: "fst (has_next_row r w)"
    by (simp add: has_next_row_def eof_def good_def)
  obtain c where c: "fst (operator_inc T ?it w) = Inr c"
    using operator_inc_Inr [OF r] by blast
  obtain it' w' where e: "operator_inc T ?it w = (Inr c, it', w')"
    using c by (cases "operator_inc T ?it w") auto
  from operator_inc_more [OF r h, of T] e have "reader it' = Some r" by simp
  with e show ?thesis by (simp add: begin_iterator_def iterator_of_def)
qed

lemma for_each_iterate:
  "for_each n T r w =
     (case operator_inc T \<lparr>current = map value_init (Fields T), reader = Some r\<rparr> w of
        (Inl x, it, w0) \<Rightarrow> Some (Inl x, w0)
      | (Inr c, it, w0) \<Rightarrow> iterate n T r it w0)"
  by (simp add: for_each_def begin_iterator_def iterator_of_def split: prod.splits sum.splits)

lemma for_each_rows:
  assumes "good (streams w (stream (readers w r)))"
    and "length (split newline (buf (streams w (stream (readers w r))))) < n"
  shows "map_option fst (for_each n T r w) =
         Some (Inr (map (\<lambda>l. make_tuple T (separator (readers w r)) (stringstream l))
                     (split newline (buf (streams w (stream (readers w r)))))))"
proof -
  let ?it = "\<lparr>current = map value_init (Fields T), reader = Some r\<rparr>"
  have r: "reader ?it = Some r" by simp
  obtain c where c: "fst (operator_inc T ?it w) = Inr c"
    using operator_inc_Inr [OF r] by blast
  obtain it' w' where e: "operator_inc T ?it w = (Inr c, it', w')"
    using c by (cases "operator_inc T ?it w") auto
  from iterate_rows [OF r assms, of T] show ?thesis
    by (simp add: for_each_iterate e)
qed

lemma split_lines:
  "\<forall>l \<in> set ls. newline \<notin> set l \<Longrightarrow> newline \<notin> set final \<Longrightarrow>
   split newline (concat (map (\<lambda>l. l @ [newline]) ls) @ final) = ls @ [final]"
  by (induction ls) (simp_all add: split_no_sep split_at_sep)

lemma for_each_lines:
  assumes "good (streams w (stream (readers w r)))"
    and "buf (streams w (stream (readers w r))) = concat (map (\<lambda>l. l @ [newline]) ls) @ final"
    and "\<forall>l \<in> set ls. newline \<notin> set l" and "newline \<notin> set final"
    and "Suc (length ls) < n"
  shows "map_option fst (for_each n T r w) =
         Some (Inr (map (\<lambda>l. make_tuple T (separator (readers w r)) (stringstream l)) (ls @ [final])))"
  using for_each_rows [OF assms(1), of n T] assms(5)
  by (simp add: assms(2) split_lines [OF assms(3,4)])

lemma next_row_left_to_right:
  assumes "good (streams w (stream (readers w r)))"
    and "line = takeWhile (\<lambda>c. c \<noteq> newline) (buf (streams w (stream (readers w r))))"
  shows "fst (next_row (left_to_right Fs) r w) =
         Inr (map (\<lambda>i. extraction (Fs ! i) (segment (separator (readers w r)) line i) (default_init (Fs ! i)))
               [0..<length Fs])"
proof -
  let ?T = "left_to_right Fs"
  from assms(1) have h: "fst (has_next_row r w)"
    by (simp add: has_next_row_def eof_def good_def)
  have wo: "well_ordered ?T" by (simp add: well_ordered_def left_to_right_def)
  have gs: "good (stringstream line)" by (simp add: stringstream_def good_def)
  have ix: "index_of i (arg_order ?T) = i" if "i < length Fs" for i
    using index_of_nth [of "[0..<length Fs]" i] that by (simp add: left_to_right_def)
  have "fst (next_row ?T r w) = Inr (make_tuple ?T (separator (readers w r)) (stringstream line))"
    using next_row_returns [OF h, of ?T] getline_line [OF assms(1)] assms(2) by simp
  also have "make_tuple ?T (separator (readers w r)) (stringstream line) =
      map (\<lambda>i. extraction (Fs ! i) (segment (separator (readers w r)) line i) (default_init (Fs ! i)))
        [0..<length Fs]"
    using make_tuple_row [OF wo gs, of "separator (readers w r)"] ix
    by (simp add: left_to_right_def stringstream_def)
  finally show ?thesis .
qed

section \<open>The claims\<close>

text \<open>The definitions that the evaluations at concrete inputs unfold.\<close>

lemmas eval_defs = next_row_def has_next_row_def one_reader_def CSVReader_ctor_def left_to_right_def right_to_left_def
  eof_def stringstream_def getline_def good_def newline_def make_tuple_def parse_def int_field_def string_field_def
  extract_int_def extract_string_def isspace_def isdigit_def decimal_def digit_val_def clamp_int_def INT_MAX_def INT_MIN_def
  operator_inc_def operator_ne_def operator_deref_def iterator_of_def begin_iterator_def end_iterator_def iterator_default_def
  for_each_def int_string_def Let_def well_ordered_def

text \<open>
  Claim C1. A stream of exactly \<open>K\<close> well-formed lines, iterated from \<^verbatim>\<open>begin()\<close> until
  the cursor equals \<^verbatim>\<open>end()\<close>, yields exactly \<open>K\<close> rows in input order; the text
  \<^verbatim>\<open>"1,hello\n2,world\n"\<close> with fields (int, string) yields the two rows (1, "hello") and
  (2, "world").

  The header does not do this. \<^verbatim>\<open>has_next_row\<close> tests \<^verbatim>\<open>eofbit\<close>, which a read sets
  only when it runs into the end of the input; after the newline that ends the last line
  it is still clear, so the loop goes round once more and yields a third row, read from
  no text at all: an \<^verbatim>\<open>int\<close> that was never written and an empty string. Lemma
  \<open>for_each_lines\<close> above shows it for every input: the loop yields one row for each
  newline-terminated line and one more for whatever follows the last newline, also when
  nothing does.
\<close>

theorem for_each_trailing_newline_extra_row:
  "map_option fst (for_each 4 int_string 0 (one_reader ''1,hello\<newline>2,world\<newline>'')) =
   Some (Inr [[IntV 1, StrV ''hello''], [IntV 2, StrV ''world''], [Indeterminate, StrV []]])"
  by code_simp

text \<open>
  Claim C2. On the empty input (zero bytes) \<^verbatim>\<open>begin()\<close> yields a cursor that is already
  exhausted, equal to \<^verbatim>\<open>end()\<close>, and no row is produced.

  The header does not do this either, for the same reason as in C1: a stream that has not
  been read yet has \<^verbatim>\<open>eofbit\<close> clear, so \<^verbatim>\<open>begin()\<close> reads a row from the empty input.
  The cursor it returns is bound to the reader, differs from \<^verbatim>\<open>end()\<close>, and the loop
  yields that one row. By lemma \<open>begin_iterator_active\<close> the cursor of \<^verbatim>\<open>begin()\<close> is
  active on every stream in good state, whatever is left to read.
\<close>

theorem begin_iterator_empty_input_active:
  "fst (begin_iterator int_string 0 (one_reader [])) =
     Inr \<lparr>current = [Indeterminate, StrV []], reader = Some 0\<rparr> \<and>
   operator_ne \<lparr>current = [Indeterminate, StrV []], reader = Some 0\<rparr>
     (fst (end_iterator int_string 0 (snd (begin_iterator int_string 0 (one_reader []))))) \<and>
   map_option fst (for_each 2 int_string 0 (one_reader [])) =
     Some (Inr [[Indeterminate, StrV []]])"
  by code_simp

text \<open>
  Claim C3. \<^verbatim>\<open>next_row\<close> converts the \<open>N\<close> fields in declaration order, the \<open>i\<close>-th
  field from the \<open>i\<close>-th separator-delimited substring of the line, and assembles them in
  declaration order.

  The header leaves the order of the conversions to the implementation: they are the
  arguments of a parenthesised constructor call. Evaluated left to right they give what
  the claim says (lemma \<open>next_row_left_to_right\<close>); evaluated right to left, the line
  \<^verbatim>\<open>1,hello\<close> with fields (int, string) gives the string field the first substring and
  the int field the second, which is no number: the row is (0, "1").
\<close>

theorem next_row_right_to_left_swaps_fields:
  "fst (next_row (right_to_left [int_field, string_field]) 0 (one_reader ''1,hello\<newline>'')) =
   Inr [IntV 0, StrV ''1'']"
  by (simp add: eval_defs)

text \<open>
  Claim C4, as amended. When the reader of an active cursor reports no next row,
  \<^verbatim>\<open>operator++\<close> returns normally, sets only the cursor's reader pointer to null and
  leaves the cached row and the stream as they were. (The claim has the cached row
  dropped; the cursor has no way to hold no row, and the branch assigns \<^verbatim>\<open>reader\<close>
  alone.)
\<close>

theorem operator_inc_keeps_cached_row:
  "reader it = Some r \<Longrightarrow> \<not> fst (has_next_row r w) \<Longrightarrow>
   operator_inc T it w = (Inr (it\<lparr>reader := None\<rparr>), it\<lparr>reader := None\<rparr>, w) \<and>
   reader (fst (snd (operator_inc T it w))) = None \<and>
   current (fst (snd (operator_inc T it w))) = current it"
  by (simp add: operator_inc_def has_next_row_def Let_def)

theorem operator_inc_keeps_cached_row_witness:
  "fst (snd (operator_inc int_string \<lparr>current = [IntV 1, StrV ''hello''], reader = Some 0\<rparr> drained)) =
   \<lparr>current = [IntV 1, StrV ''hello''], reader = None\<rparr>"
proof -
  have 1: "reader \<lparr>current = [IntV 1, StrV ''hello''], reader = Some 0\<rparr> = Some 0" by simp
  have 2: "\<not> fst (has_next_row 0 drained)" by (simp add: eval_defs drained_def)
  from operator_inc_keeps_cached_row [OF 1 2] show ?thesis by simp
qed

text \<open>
  Claim C4 as stated fails: the cursor that \<^verbatim>\<open>begin()\<close> returns on the input
  \<^verbatim>\<open>1,hello\<close> is active and holds the row (1, "hello"); its reader reports no next row;
  after \<^verbatim>\<open>operator++\<close> it is exhausted and still holds (1, "hello").
\<close>

theorem operator_inc_cached_row_counterexample:
  "fst (begin_iterator int_string 0 (one_reader ''1,hello'')) =
     Inr \<lparr>current = [IntV 1, StrV ''hello''], reader = Some 0\<rparr> \<and>
   \<not> fst (has_next_row 0 drained) \<and>
   reader (fst (snd (operator_inc int_string
     \<lparr>current = [IntV 1, StrV ''hello''], reader = Some 0\<rparr> drained))) = None \<and>
   current (fst (snd (operator_inc int_string
     \<lparr>current = [IntV 1, StrV ''hello''], reader = Some 0\<rparr> drained))) = [IntV 1, StrV ''hello'']"
  by (simp add: eval_defs drained_def)

text \<open>
  Claim C5. Dereferencing an exhausted cursor signals no error and returns a row: the
  \<^verbatim>\<open>end()\<close> sentinel returns the tuple of value-initialised fields, and a cursor that
  became exhausted by advancing returns the row it held before that advance.
  (\<^verbatim>\<open>operator*\<close> has no failing path: it is a function from cursors to rows.)
\<close>

theorem operator_deref_exhausted:
  "operator_deref (fst (end_iterator T r w)) = map value_init (Fields T) \<and>
   (reader it \<noteq> None \<and> reader (fst (snd (operator_inc T it w))) = None \<longrightarrow>
      operator_deref (fst (snd (operator_inc T it w))) = operator_deref it)"
  by (auto simp: operator_deref_def end_iterator_def iterator_default_def operator_inc_def
      has_next_row_def Let_def split: prod.splits sum.splits)

theorem operator_deref_exhausted_witness:
  "operator_deref (fst (end_iterator int_string 0 drained)) = [IntV 0, StrV []] \<and>
   operator_deref (fst (snd (operator_inc int_string
     \<lparr>current = [IntV 1, StrV ''hello''], reader = Some 0\<rparr> drained))) = [IntV 1, StrV ''hello'']"
proof -
  let ?it = "\<lparr>current = [IntV 1, StrV ''hello''], reader = Some (0::nat)\<rparr>"
  have 1: "reader ?it \<noteq> None" by simp
  have 2: "reader (fst (snd (operator_inc int_string ?it drained))) = None"
    by (simp add: eval_defs drained_def)
  from operator_deref_exhausted [of int_string 0 drained ?it] 1 2 show ?thesis
    by (simp add: int_string_def left_to_right_def int_field_def string_field_def operator_deref_def)
qed

text \<open>
  Claim C6. \<^verbatim>\<open>operator++\<close> on an exhausted cursor throws \<^verbatim>\<open>std::out_of_range\<close>; it
  changes neither the cursor, which stays exhausted, nor the stream.
\<close>

theorem operator_inc_exhausted_throws:
  "reader it = None \<Longrightarrow>
   operator_inc T it w = (Inl (out_of_range ''EOF''), it, w) \<and>
   reader (fst (snd (operator_inc T it w))) = None"
  by (simp add: operator_inc_def)

theorem operator_inc_exhausted_throws_witness:
  "operator_inc int_string (fst (end_iterator int_string 0 drained)) drained =
     (Inl (out_of_range ''EOF''), fst (end_iterator int_string 0 drained), drained)"
proof -
  have "reader (fst (end_iterator int_string 0 drained)) = None"
    by (simp add: end_iterator_def iterator_default_def)
  from operator_inc_exhausted_throws [OF this] show ?thesis by simp
qed

text \<open>
  Claim C7. \<^verbatim>\<open>next_row\<close> throws if and only if \<^verbatim>\<open>has_next_row()\<close> is false at entry,
  and what it throws then is \<^verbatim>\<open>std::out_of_range\<close>, the stream untouched; when
  \<^verbatim>\<open>has_next_row()\<close> is true it returns a row and moves the stream past one line. The
  row has one value for each declared field, and it is the conversions of the segments of
  the line that was read: the text up to the first newline, or no text when the stream
  is in a failed state and \<^verbatim>\<open>std::getline\<close> reads nothing.
\<close>

theorem next_row_throws_iff:
  "((\<exists>e. fst (next_row T r w) = Inl e) = (\<not> fst (has_next_row r w))) \<and>
   (\<not> fst (has_next_row r w) \<longrightarrow> next_row T r w = (Inl (out_of_range ''EOF''), w)) \<and>
   (fst (has_next_row r w) \<longrightarrow>
      next_row T r w =
        (Inr (make_tuple T (separator (readers w r))
               (stringstream (fst (getline (streams w (stream (readers w r))) [] newline)))),
         w\<lparr>streams := (streams w)
             (stream (readers w r) := snd (getline (streams w (stream (readers w r))) [] newline))\<rparr>) \<and>
      (\<exists>row. fst (next_row T r w) = Inr row \<and> length row = length (Fields T) \<and>
         (well_ordered T \<longrightarrow>
            row = map (\<lambda>i. extraction (Fields T ! i)
                        (segment (separator (readers w r))
                           (if good (streams w (stream (readers w r)))
                            then takeWhile (\<lambda>c. c \<noteq> newline) (buf (streams w (stream (readers w r))))
                            else [])
                           (index_of i (arg_order T)))
                        (default_init (Fields T ! i)))
                    [0..<length (Fields T)])))"
proof -
  let ?s = "streams w (stream (readers w r))"
  let ?sep = "separator (readers w r)"
  let ?line = "if good ?s then takeWhile (\<lambda>c. c \<noteq> newline) (buf ?s) else []"
  have a: "(\<exists>e. fst (next_row T r w) = Inl e) = (\<not> fst (has_next_row r w))"
    by (simp add: next_row_def has_next_row_def Let_def split_def)
  have b: "next_row T r w = (Inl (out_of_range ''EOF''), w)" if "\<not> fst (has_next_row r w)"
    using that by (simp add: next_row_def has_next_row_def)
  have gs: "good (stringstream ?line)" by (simp add: stringstream_def good_def)
  have bs: "buf (stringstream ?line) = ?line" by (simp add: stringstream_def)
  have row: "make_tuple T ?sep (stringstream ?line) =
      map (\<lambda>i. extraction (Fields T ! i) (segment ?sep ?line (index_of i (arg_order T)))
                  (default_init (Fields T ! i))) [0..<length (Fields T)]"
    if "well_ordered T"
    using make_tuple_row [OF that gs, of ?sep] by (simp only: bs)
  have c: "fst (next_row T r w) = Inr (make_tuple T ?sep (stringstream ?line))"
    if "fst (has_next_row r w)"
    using next_row_returns [OF that, of T] by (simp only: getline_text fst_conv)
  from a b c row next_row_returns [of r w T] show ?thesis
    by (simp add: length_make_tuple)
qed

theorem next_row_throws_iff_witness:
  "fst (has_next_row 0 (one_reader ''1,hello'')) \<and>
   fst (next_row int_string 0 (one_reader ''1,hello'')) = Inr [IntV 1, StrV ''hello''] \<and>
   \<not> fst (has_next_row 0 drained) \<and>
   next_row int_string 0 drained = (Inl (out_of_range ''EOF''), drained)"
proof -
  have 1: "fst (has_next_row 0 (one_reader ''1,hello''))" by (simp add: eval_defs)
  have 2: "\<not> fst (has_next_row 0 drained)" by (simp add: eval_defs drained_def)
  have 3: "well_ordered int_string" by (simp add: eval_defs)
  from next_row_throws_iff [of int_string 0 "one_reader ''1,hello''"]
    next_row_throws_iff [of int_string 0 drained] 1 2 3
  show ?thesis by (simp add: eval_defs segment_def)
qed

text \<open>
  Claim C8. When a line has more separators than \<open>N - 1\<close>, that is at least \<open>N\<close> of
  them, \<^verbatim>\<open>next_row\<close> builds its row from the first \<open>N\<close> segments of the line alone:
  the field whose conversion runs \<open>k\<close>-th receives the \<open>k\<close>-th of them, and nothing after
  the \<open>N\<close>-th segment reaches the row. No error is raised, and the rest of the line does not
  stay in the stream: the next read starts after the newline. The line is the text up to
  the first newline of a stream in good state.
\<close>

theorem next_row_excess_separators:
  assumes "well_ordered T"
    and "good (streams w (stream (readers w r)))"
    and "line = takeWhile (\<lambda>c. c \<noteq> newline) (buf (streams w (stream (readers w r))))"
    and "length (Fields T) \<le> count_list line (separator (readers w r))"
  shows "fst (next_row T r w) =
         Inr (map (\<lambda>i. extraction (Fields T ! i)
                      (take (length (Fields T)) (split (separator (readers w r)) line)
                         ! index_of i (arg_order T))
                      (default_init (Fields T ! i)))
               [0..<length (Fields T)]) \<and>
         buf (streams (snd (next_row T r w)) (stream (readers w r))) =
         tl (dropWhile (\<lambda>c. c \<noteq> newline) (buf (streams w (stream (readers w r)))))"
proof -
  let ?s = "streams w (stream (readers w r))"
  let ?sep = "separator (readers w r)"
  from assms(2) have h: "fst (has_next_row r w)"
    by (simp add: has_next_row_def eof_def good_def)
  have gs: "good (stringstream line)" by (simp add: stringstream_def good_def)
  have bs: "buf (stringstream line) = line" by (simp add: stringstream_def)
  have k: "index_of i (arg_order T) < length (Fields T)" if "i < length (Fields T)" for i
    using index_of_mem [of i "arg_order T"] well_ordered_set [OF assms(1)]
      well_ordered_length [OF assms(1)] that by simp
  have seg: "segment ?sep line (index_of i (arg_order T)) =
             take (length (Fields T)) (split ?sep line) ! index_of i (arg_order T)"
    if "i < length (Fields T)" for i
    using k [OF that] assms(4) by (simp add: segment_def length_split)
  have "fst (next_row T r w) = Inr (make_tuple T ?sep (stringstream line))"
    using next_row_returns [OF h, of T] getline_line [OF assms(2)] assms(3) by simp
  also have "make_tuple T ?sep (stringstream line) =
      map (\<lambda>i. extraction (Fields T ! i) (segment ?sep line (index_of i (arg_order T)))
                  (default_init (Fields T ! i))) [0..<length (Fields T)]"
    using make_tuple_row [OF assms(1) gs] bs by simp
  also have "\<dots> = map (\<lambda>i. extraction (Fields T ! i)
                      (take (length (Fields T)) (split ?sep line) ! index_of i (arg_order T))
                      (default_init (Fields T ! i))) [0..<length (Fields T)]"
    using seg by simp
  finally have row: "fst (next_row T r w) =
      Inr (map (\<lambda>i. extraction (Fields T ! i)
                 (take (length (Fields T)) (split ?sep line) ! index_of i (arg_order T))
                 (default_init (Fields T ! i))) [0..<length (Fields T)])" .
  have rest: "buf (streams (snd (next_row T r w)) (stream (readers w r))) =
      tl (dropWhile (\<lambda>c. c \<noteq> newline) (buf ?s))"
    using next_row_returns [OF h, of T] getline_rest [OF assms(2), of "[]" newline] by simp
  from row rest show ?thesis by simp
qed

text \<open>The scenario of the claim: one \<^verbatim>\<open>int\<close> field, the line \<^verbatim>\<open>7,8,9\<close>, the row (7).\<close>

theorem next_row_excess_separators_witness:
  "fst (next_row (left_to_right [int_field]) 0 (one_reader ''7,8,9\<newline>'')) = Inr [IntV 7] \<and>
   buf (streams (snd (next_row (left_to_right [int_field]) 0 (one_reader ''7,8,9\<newline>''))) 0) = []"
proof -
  let ?T = "left_to_right [int_field]"
  let ?w = "one_reader ''7,8,9\<newline>''"
  have 1: "well_ordered ?T" by (simp add: well_ordered_def left_to_right_def)
  have 2: "good (streams ?w (stream (readers ?w 0)))"
    by (simp add: one_reader_def CSVReader_ctor_def stringstream_def good_def)
  have 3: "''7,8,9'' = takeWhile (\<lambda>c. c \<noteq> newline) (buf (streams ?w (stream (readers ?w 0))))"
    by (simp add: one_reader_def CSVReader_ctor_def stringstream_def newline_def)
  have 4: "length (Fields ?T) \<le> count_list ''7,8,9'' (separator (readers ?w 0))"
    by (simp add: one_reader_def CSVReader_ctor_def left_to_right_def)
  from next_row_excess_separators [OF 1 2 3 4] show ?thesis
    by (simp add: eval_defs)
qed

text \<open>
  Claim C9. \<^verbatim>\<open>operator!=\<close> is true unless both cursors are exhausted or both are bound
  to the same reader object; so \<^verbatim>\<open>end()\<close> differs from every active cursor and equals
  every exhausted one.
\<close>

theorem operator_ne_identity:
  "operator_ne a b =
     (\<not> ((reader a = None \<and> reader b = None) \<or> (\<exists>r. reader a = Some r \<and> reader b = Some r))) \<and>
   (reader a \<noteq> None \<longrightarrow>
      operator_ne a (fst (end_iterator T r w)) \<and> operator_ne (fst (end_iterator T r w)) a) \<and>
   (reader a = None \<longrightarrow>
      \<not> operator_ne a (fst (end_iterator T r w)) \<and> \<not> operator_ne (fst (end_iterator T r w)) a)"
  by (cases "reader a"; cases "reader b")
    (auto simp: operator_ne_def end_iterator_def iterator_default_def)

theorem operator_ne_identity_witness:
  "operator_ne \<lparr>current = [IntV 1, StrV ''hello''], reader = Some 0\<rparr>
      (fst (end_iterator int_string 0 drained)) \<and>
   \<not> operator_ne \<lparr>current = [IntV 1, StrV ''hello''], reader = None\<rparr>
      (fst (end_iterator int_string 0 drained))"
  using operator_ne_identity [of "\<lparr>current = [IntV 1, StrV ''hello''], reader = Some 0\<rparr>"
      "\<lparr>current = [], reader = None\<rparr>" int_string 0 drained]
    operator_ne_identity [of "\<lparr>current = [IntV 1, StrV ''hello''], reader = None\<rparr>"
      "\<lparr>current = [], reader = None\<rparr>" int_string 0 drained]
  by simp

text \<open>
  Claim C10. \<^verbatim>\<open>has_next_row\<close> changes nothing: the world after the call is the world
  before it, so is the world after any number \<open>n\<close> of calls, and the call after those
  returns what the first one did. Cursors are not in its reach: it is given the reader
  and the world only.
\<close>

theorem has_next_row_no_effect:
  "snd (has_next_row r w) = w \<and>
   ((\<lambda>v. snd (has_next_row r v)) ^^ n) w = w \<and>
   fst (has_next_row r (((\<lambda>v. snd (has_next_row r v)) ^^ n) w)) = fst (has_next_row r w)"
proof -
  have 1: "snd (has_next_row r v) = v" for v by (simp add: has_next_row_def)
  have 2: "((\<lambda>v. snd (has_next_row r v)) ^^ n) w = w" by (induction n) (simp_all add: 1)
  from 1 2 show ?thesis by simp
qed

end
